theory Spec2Isabelle
  imports Main "HOL-Library.AList" "HOL-Library.Sublist"
begin

section \<open>The autonomous player's move-decision engine (PlayerClientAuto3.py)\<close>

text \<open>
  The embedding follows the source line by line. Python's unbounded integers are
  \<open>int\<close>, a coordinate tuple is a pair, the move names are the strings the source
  publishes, a \<open>dict\<close> is an association list in insertion order (\<open>map_of\<close> is the
  lookup, \<open>AList.update\<close> is \<open>d[k] = v\<close>), the \<open>deque\<close> is a list popped at its
  head and extended at its end, and the \<open>visited\<close> set is a HOL set. The module-level
  list \<open>fake_coin_positions\<close> is threaded through the message handler explicitly, and
  every call that can raise in Python returns a sum whose left side is the exception.
\<close>

subsection \<open>Data\<close>

type_synonym pos = "int \<times> int"
type_synonym move = string
type_synonym grid = "(pos \<times> char) list"

datatype py_error = ValueError | IndexError

text \<open>The fields of the decoded payload that the handler reads.\<close>

record game_state =
  currentPosition :: pos
  coin1 :: "pos list"
  coin2 :: "pos list"
  coin3 :: "pos list"
  walls :: "pos list"

text \<open>\<open>MOVES\<close>: a dict literal, iterated in insertion order.\<close>

definition MOVES :: "(move \<times> (int \<times> int)) list" where
  "MOVES = [(''UP'', (-1, 0)), (''DOWN'', (1, 0)), (''LEFT'', (0, -1)), (''RIGHT'', (0, 1))]"

text \<open>The initial value of the module-level list \<open>fake_coin_positions\<close>.\<close>

definition fake_coin_positions :: "pos list" where
  "fake_coin_positions = [(0, 0), (0, 9), (9, 0), (9, 9)]"

subsection \<open>Helpers of the Python runtime\<close>

text \<open>\<open>min(xs, key=f)\<close>: the first element whose key is least; \<open>ValueError\<close> on an
  empty sequence. The running best is replaced only by a strictly smaller key.\<close>

fun min_key_from :: "('a \<Rightarrow> int) \<Rightarrow> 'a \<Rightarrow> 'a list \<Rightarrow> 'a" where
  "min_key_from f best [] = best"
| "min_key_from f best (x # xs) =
     (if f x < f best then min_key_from f x xs else min_key_from f best xs)"

definition min_key :: "('a \<Rightarrow> int) \<Rightarrow> 'a list \<Rightarrow> py_error + 'a" where
  "min_key f xs = (case xs of [] \<Rightarrow> Inl ValueError | x # rest \<Rightarrow> Inr (min_key_from f x rest))"

text \<open>\<open>xs.remove(x)\<close>: drops the first occurrence; \<open>ValueError\<close> when there is none.\<close>

definition list_remove :: "'a list \<Rightarrow> 'a \<Rightarrow> py_error + 'a list" where
  "list_remove xs x = (if x \<in> set xs then Inr (remove1 x xs) else Inl ValueError)"

text \<open>\<open>random.choice(xs)\<close>: \<open>IndexError\<close> on an empty sequence, otherwise the element
  at the index the generator draws below \<open>len(xs)\<close>. The draw is the parameter \<open>rnd\<close>,
  reduced modulo the length.\<close>

definition random_choice :: "'a list \<Rightarrow> nat \<Rightarrow> py_error + 'a" where
  "random_choice xs rnd = (if xs = [] then Inl IndexError else Inr (xs ! (rnd mod length xs)))"

subsection \<open>\<open>manhattan_distance\<close>\<close>

definition manhattan_distance :: "pos \<Rightarrow> pos \<Rightarrow> int" where
  "manhattan_distance pos1 pos2 = \<bar>fst pos1 - fst pos2\<bar> + \<bar>snd pos1 - snd pos2\<bar>"

subsection \<open>\<open>bfs\<close>\<close>

text \<open>The guard of line 74 without its last conjunct:
  \<open>next_pos in grid and grid[next_pos] != 'W'\<close>.\<close>

definition passable :: "grid \<Rightarrow> pos \<Rightarrow> bool" where
  "passable grid p = (case map_of grid p of None \<Rightarrow> False | Some c \<Rightarrow> c \<noteq> CHR ''W'')"

text \<open>One round of the \<open>for\<close> loop of lines 72 to 76, on the pair (queue, visited).\<close>

fun bfs_visit ::
  "grid \<Rightarrow> pos \<Rightarrow> move list \<Rightarrow> move \<times> (int \<times> int) \<Rightarrow>
   (pos \<times> move list) list \<times> pos set \<Rightarrow> (pos \<times> move list) list \<times> pos set" where
  "bfs_visit grid current path (move, (dx, dy)) (queue, visited) =
     (let next_pos = (fst current + dx, snd current + dy) in
      if passable grid next_pos \<and> next_pos \<notin> visited
      then (queue @ [(next_pos, path @ [move])], insert next_pos visited)
      else (queue, visited))"

lemma bfs_visit_measure:
  "fold (bfs_visit grid current path) ms (queue, visited) = (queue', visited') \<Longrightarrow>
   2 * card (fst ` set grid - visited') + length queue'
     \<le> 2 * card (fst ` set grid - visited) + length queue"
proof (induction ms arbitrary: queue visited)
  case Nil
  then show ?case by simp
next
  case (Cons mv ms)
  obtain move dx dy where mv: "mv = (move, (dx, dy))"
    by (cases mv) auto
  define q where "q = (fst current + dx, snd current + dy)"
  show ?case
  proof (cases "passable grid q \<and> q \<notin> visited")
    case True
    then have "map_of grid q \<noteq> None"
      by (auto simp: passable_def split: option.splits)
    then have "q \<in> fst ` set grid"
      by (simp add: map_of_eq_None_iff)
    with True have "card (fst ` set grid - insert q visited) < card (fst ` set grid - visited)"
      by (intro psubset_card_mono) auto
    moreover from True Cons.prems
    have "fold (bfs_visit grid current path) ms (queue @ [(q, path @ [move])], insert q visited)
            = (queue', visited')"
      by (simp add: mv q_def Let_def)
    from Cons.IH [OF this]
    have "2 * card (fst ` set grid - visited') + length queue'
            \<le> 2 * card (fst ` set grid - insert q visited) + Suc (length queue)"
      by simp
    ultimately show ?thesis by linarith
  next
    case False
    with Cons.prems
    have "fold (bfs_visit grid current path) ms (queue, visited) = (queue', visited')"
      by (auto simp: mv q_def Let_def)
    from Cons.IH [OF this] show ?thesis .
  qed
qed

text \<open>The \<open>while queue\<close> loop of lines 67 to 77.\<close>

function bfs_loop :: "grid \<Rightarrow> pos \<Rightarrow> (pos \<times> move list) list \<Rightarrow> pos set \<Rightarrow> move list" where
  "bfs_loop grid goal [] visited = []"
| "bfs_loop grid goal ((current, path) # queue) visited =
     (if current = goal then path
      else case fold (bfs_visit grid current path) MOVES (queue, insert current visited) of
             (queue', visited') \<Rightarrow> bfs_loop grid goal queue' visited')"
  by pat_completeness auto
termination
proof (relation "measure (\<lambda>(grid, goal, queue, visited).
                   2 * card (fst ` set grid - visited) + length queue)", goal_cases)
  case 1
  then show ?case by simp
next
  case (2 grid goal current path queue visited queue' visited')
  then have "fold (bfs_visit grid current path) MOVES (queue, insert current visited)
               = (queue', visited')"
    by simp
  from bfs_visit_measure [OF this]
  have "2 * card (fst ` set grid - visited') + length queue'
          \<le> 2 * card (fst ` set grid - insert current visited) + length queue" .
  moreover have "card (fst ` set grid - insert current visited) \<le> card (fst ` set grid - visited)"
    by (intro card_mono) auto
  ultimately show ?case by simp
qed

definition bfs :: "grid \<Rightarrow> pos \<Rightarrow> pos \<Rightarrow> move list" where
  "bfs grid start goal = bfs_loop grid goal [(start, [])] {}"

subsection \<open>\<open>on_message\<close>\<close>

text \<open>Lines 93 to 95: the dict comprehension over \<open>range(10)\<close> twice, then
  \<open>grid[wall] = 'W'\<close> for every wall of the snapshot, whatever its coordinates.\<close>

definition make_grid :: "pos list \<Rightarrow> grid" where
  "make_grid wall_positions =
     fold (\<lambda>wall grid. AList.update wall (CHR ''W'') grid) wall_positions
       (concat (map (\<lambda>x. map (\<lambda>y. ((x, y), CHR ''.'')) [0..9]) [0..9]))"

text \<open>Sequencing of statements that may raise.\<close>

definition py_bind :: "py_error + 'a \<Rightarrow> ('a \<Rightarrow> py_error + 'b) \<Rightarrow> py_error + 'b" where
  "py_bind r f = (case r of Inl e \<Rightarrow> Inl e | Inr v \<Rightarrow> f v)"

text \<open>
  Lines 88 to 130, the body under the topic test: from the value of
  \<open>fake_coin_positions\<close>, the decoded snapshot and the draw of the random generator to
  the new value of \<open>fake_coin_positions\<close> and the move that is published.
\<close>

definition decision_cycle :: "pos list \<Rightarrow> game_state \<Rightarrow> nat \<Rightarrow> py_error + (pos list \<times> move)" where
  "decision_cycle fakes gs rnd =
     (let current_position = currentPosition gs;
          coin_positions = coin1 gs @ coin2 gs @ coin3 gs;
          wall_positions = walls gs;
          grid = make_grid wall_positions
      in
      if coin_positions \<noteq> [] then
        py_bind (min_key (manhattan_distance current_position) coin_positions) (\<lambda>nearest_coin.
          let path_to_nearest_coin = bfs grid current_position nearest_coin in
          if path_to_nearest_coin \<noteq> [] then Inr (fakes, hd path_to_nearest_coin)
          else py_bind (random_choice (map fst MOVES) rnd) (\<lambda>next_move. Inr (fakes, next_move)))
      else if fakes \<noteq> [] then
        py_bind (min_key (manhattan_distance current_position) fakes) (\<lambda>nearest_fake_coin.
          let path_to_nearest_fake_coin = bfs grid current_position nearest_fake_coin in
          py_bind (if manhattan_distance current_position nearest_fake_coin \<le> 2
                   then list_remove fakes nearest_fake_coin else Inr fakes) (\<lambda>fakes1.
            if path_to_nearest_fake_coin \<noteq> [] then
              py_bind (if current_position = nearest_fake_coin
                       then list_remove fakes1 nearest_fake_coin else Inr fakes1) (\<lambda>fakes2.
                Inr (fakes2, hd path_to_nearest_fake_coin))
            else py_bind (random_choice (map fst MOVES) rnd) (\<lambda>next_move. Inr (fakes1, next_move))))
      else py_bind (random_choice (map fst MOVES) rnd) (\<lambda>next_move. Inr (fakes, next_move)))"

text \<open>The handler: a message on another topic publishes nothing and changes nothing.\<close>

definition on_message ::
  "pos list \<Rightarrow> string \<Rightarrow> game_state \<Rightarrow> nat \<Rightarrow> py_error + (pos list \<times> move option)" where
  "on_message fakes topic gs rnd =
     (if suffix ''/game_state'' topic
      then py_bind (decision_cycle fakes gs rnd) (\<lambda>(fakes', next_move). Inr (fakes', Some next_move))
      else Inr (fakes, None))"

text \<open>The successive values of \<open>fake_coin_positions\<close> while the handler receives a
  sequence of snapshots; an exception would end the sequence.\<close>

fun fake_trace :: "pos list \<Rightarrow> (game_state \<times> nat) list \<Rightarrow> pos list list" where
  "fake_trace fakes [] = [fakes]"
| "fake_trace fakes ((gs, rnd) # rest) =
     fakes # (case decision_cycle fakes gs rnd of
                Inl e \<Rightarrow> []
              | Inr (fakes', next_move) \<Rightarrow> fake_trace fakes' rest)"

subsection \<open>The vocabulary of the specification\<close>

text \<open>A cell of the fixed 10x10 board.\<close>

definition in_bounds :: "pos \<Rightarrow> bool" where
  "in_bounds p = (0 \<le> fst p \<and> fst p < 10 \<and> 0 \<le> snd p \<and> snd p < 10)"

text \<open>An in-bounds cell that is not a wall.\<close>

definition free_cell :: "pos list \<Rightarrow> pos \<Rightarrow> bool" where
  "free_cell wall_positions p = (in_bounds p \<and> p \<notin> set wall_positions)"

text \<open>Applying a sequence of moves from a cell: every move must be one of \<open>MOVES\<close> and
  must enter a cell that \<open>ok\<close> accepts; the result is the cell reached.\<close>

fun walk :: "(pos \<Rightarrow> bool) \<Rightarrow> pos \<Rightarrow> move list \<Rightarrow> pos option" where
  "walk ok p [] = Some p"
| "walk ok p (m # ms) =
     (case map_of MOVES m of
        None \<Rightarrow> None
      | Some (dx, dy) \<Rightarrow>
          if ok (fst p + dx, snd p + dy) then walk ok (fst p + dx, snd p + dy) ms else None)"

text \<open>The order of the keys of \<open>MOVES\<close>, and the order it induces on move sequences:
  a shorter sequence comes first, and two sequences of one length are compared at the
  first move where they differ.\<close>

definition move_rank :: "move \<Rightarrow> nat" where
  "move_rank m = length (takeWhile (\<lambda>mv. fst mv \<noteq> m) MOVES)"

definition path_order :: "(move list \<times> move list) set" where
  "path_order = lenlex (measure move_rank)"

text \<open>The cell a move leads to, and the queue entry line 75 appends for it.\<close>

definition target :: "pos \<Rightarrow> move \<times> (int \<times> int) \<Rightarrow> pos" where
  "target p mv = (fst p + fst (snd mv), snd p + snd (snd mv))"

definition entry :: "pos \<Rightarrow> move list \<Rightarrow> move \<times> (int \<times> int) \<Rightarrow> pos \<times> move list" where
  "entry p path mv = (target p mv, path @ [fst mv])"

text \<open>The move a cycle publishes for a path (lines 102 to 106, 117 to 124 and 127): the
  first move of a non-empty path, otherwise the draw of \<open>random.choice\<close> among the keys
  of \<open>MOVES\<close>.\<close>

definition pick_move :: "move list \<Rightarrow> nat \<Rightarrow> move" where
  "pick_move path rnd = (if path \<noteq> [] then hd path else map fst MOVES ! (rnd mod length MOVES))"

subsection \<open>Snapshots used as concrete inputs\<close>

text \<open>An empty board with the player at (5,5) and one coin at (5,7).\<close>

definition snapshot_A :: game_state where
  "snapshot_A = \<lparr>currentPosition = (5, 5), coin1 = [(5, 7)], coin2 = [], coin3 = [], walls = []\<rparr>"

text \<open>Two coins at the same Manhattan distance 2 from the player, in different groups,
  and a third one farther away.\<close>

definition snapshot_tie :: game_state where
  "snapshot_tie =
     \<lparr>currentPosition = (5, 5), coin1 = [(0, 0)], coin2 = [(7, 5)], coin3 = [(5, 7)], walls = []\<rparr>"

text \<open>An empty board without coins, the player standing on the corner (0,0).\<close>

definition snapshot_B :: game_state where
  "snapshot_B = \<lparr>currentPosition = (0, 0), coin1 = [], coin2 = [], coin3 = [], walls = []\<rparr>"

text \<open>An empty board without coins, the player in the middle, far from every corner.\<close>

definition snapshot_far :: game_state where
  "snapshot_far = \<lparr>currentPosition = (5, 5), coin1 = [], coin2 = [], coin3 = [], walls = []\<rparr>"

text \<open>Duplicated coordinates: the only coin lies on a wall cell, and so does the player.\<close>

definition snapshot_coin_on_wall :: game_state where
  "snapshot_coin_on_wall =
     \<lparr>currentPosition = (0, 0), coin1 = [(0, 1)], coin2 = [], coin3 = [], walls = [(0, 1), (0, 0)]\<rparr>"

subsection \<open>The loop invariant of \<open>bfs\<close>\<close>

text \<open>
  At the head of the \<open>while\<close> loop, for the start \<open>s\<close> and the goal \<open>g\<close>: every
  queue entry carries a walk to its cell that is least in \<open>path_order\<close> among all walks
  to that cell; the queue is strictly increasing in \<open>path_order\<close> and spans at most two
  lengths; every cell a walk no longer than the head's reaches is discovered; the
  passable neighbours of every cell already taken from the queue are discovered; and
  the goal has not been taken from the queue.
\<close>

definition bfs_inv :: "grid \<Rightarrow> pos \<Rightarrow> pos \<Rightarrow> (pos \<times> move list) list \<Rightarrow> pos set \<Rightarrow> bool" where
  "bfs_inv grid s g Q V \<longleftrightarrow>
     (\<forall>(p, \<pi>) \<in> set Q. walk (passable grid) s \<pi> = Some p \<and>
        (\<forall>\<pi>'. walk (passable grid) s \<pi>' = Some p \<longrightarrow> \<pi> = \<pi>' \<or> (\<pi>, \<pi>') \<in> path_order)) \<and>
     sorted_wrt (\<lambda>a b. (snd a, snd b) \<in> path_order) Q \<and>
     (\<forall>(p, \<pi>) \<in> set Q. \<forall>m. (\<pi>, snd (hd Q) @ [m]) \<in> path_order) \<and>
     fst ` set (tl Q) \<subseteq> V \<and>
     (\<forall>\<pi>' q. Q \<noteq> [] \<longrightarrow> walk (passable grid) s \<pi>' = Some q \<longrightarrow>
        length \<pi>' \<le> length (snd (hd Q)) \<longrightarrow> q \<in> V \<union> fst ` set Q) \<and>
     (\<forall>q \<in> V \<union> fst ` set Q. q \<in> fst ` set Q \<or>
        (\<forall>mv \<in> set MOVES. passable grid (target q mv) \<longrightarrow> target q mv \<in> V \<union> fst ` set Q)) \<and>
     (g \<in> V \<longrightarrow> g \<in> fst ` set Q) \<and>
     s \<in> V \<union> fst ` set Q"

text \<open>What \<open>bfs\<close> returns: the least walk to the goal, or the empty sequence when no
  walk reaches the goal.\<close>

definition bfs_post :: "grid \<Rightarrow> pos \<Rightarrow> pos \<Rightarrow> move list \<Rightarrow> bool" where
  "bfs_post grid s g r \<longleftrightarrow>
     (walk (passable grid) s r = Some g \<and>
        (\<forall>\<pi>'. walk (passable grid) s \<pi>' = Some g \<longrightarrow> r = \<pi>' \<or> (r, \<pi>') \<in> path_order)) \<or>
     (r = [] \<and> (\<forall>\<pi>'. walk (passable grid) s \<pi>' \<noteq> Some g))"

section \<open>Properties of the path finder\<close>

lemma map_of_MOVES: "map_of MOVES m = Some d \<longleftrightarrow> (m, d) \<in> set MOVES"
  by (rule map_of_eq_Some_iff) (simp add: MOVES_def)

lemma MOVES_offset_inj: "(m, d) \<in> set MOVES \<Longrightarrow> (m', d) \<in> set MOVES \<Longrightarrow> m = m'"
proof -
  assume a: "(m, d) \<in> set MOVES" "(m', d) \<in> set MOVES"
  have "distinct (map snd MOVES)"
    by (simp add: MOVES_def)
  then have "inj_on snd (set MOVES)"
    by (simp add: distinct_map)
  from inj_onD [OF this _ a] show ?thesis by simp
qed

lemma MOVES_sorted: "sorted_wrt (\<lambda>a b. move_rank (fst a) < move_rank (fst b)) MOVES"
  by (simp add: MOVES_def move_rank_def)

lemma walk_append:
  "walk ok p (xs @ ys) = (case walk ok p xs of None \<Rightarrow> None | Some q \<Rightarrow> walk ok q ys)"
  by (induction xs arbitrary: p) (auto split: option.splits)

lemma walk_snoc:
  "walk ok s (xs @ [m]) = Some q \<longleftrightarrow>
     (\<exists>p d. walk ok s xs = Some p \<and> (m, d) \<in> set MOVES \<and> q = target p (m, d) \<and> ok q)"
  by (auto simp: walk_append target_def map_of_MOVES [symmetric] split: option.splits if_splits)

lemma bfs_visit_fold:
  "fold (bfs_visit grid cur path) ms (Q, V) = (Q', V') \<Longrightarrow>
   \<exists>sub. set sub \<subseteq> set ms \<and> (\<forall>R. sorted_wrt R ms \<longrightarrow> sorted_wrt R sub) \<and>
     Q' = Q @ map (entry cur path) sub \<and> V' = V \<union> target cur ` set sub \<and>
     (\<forall>mv \<in> set sub. target cur mv \<notin> V \<and> passable grid (target cur mv)) \<and>
     (\<forall>mv \<in> set ms. passable grid (target cur mv) \<longrightarrow> target cur mv \<in> V')"
proof (induction ms arbitrary: Q V)
  case Nil
  then show ?case by simp
next
  case (Cons mv ms)
  obtain m dx dy where mv: "mv = (m, (dx, dy))"
    by (cases mv) auto
  have t: "target cur mv = (fst cur + dx, snd cur + dy)"
    by (simp add: target_def mv)
  show ?case
  proof (cases "passable grid (target cur mv) \<and> target cur mv \<notin> V")
    case True
    with Cons.prems
    have "fold (bfs_visit grid cur path) ms (Q @ [entry cur path mv], insert (target cur mv) V)
            = (Q', V')"
      by (simp add: mv Let_def entry_def target_def)
    from Cons.IH [OF this] obtain sub where sub:
      "set sub \<subseteq> set ms" "\<forall>R. sorted_wrt R ms \<longrightarrow> sorted_wrt R sub"
      "Q' = (Q @ [entry cur path mv]) @ map (entry cur path) sub"
      "V' = insert (target cur mv) V \<union> target cur ` set sub"
      "\<forall>mv' \<in> set sub. target cur mv' \<notin> insert (target cur mv) V \<and> passable grid (target cur mv')"
      "\<forall>mv' \<in> set ms. passable grid (target cur mv') \<longrightarrow> target cur mv' \<in> V'"
      by blast
    have "set (mv # sub) \<subseteq> set (mv # ms)"
      using sub(1) by auto
    moreover have "\<forall>R. sorted_wrt R (mv # ms) \<longrightarrow> sorted_wrt R (mv # sub)"
      using sub(1,2) by auto
    moreover have "Q' = Q @ map (entry cur path) (mv # sub)"
      using sub(3) by simp
    moreover have "V' = V \<union> target cur ` set (mv # sub)"
      using sub(4) by auto
    moreover have "\<forall>mv' \<in> set (mv # sub). target cur mv' \<notin> V \<and> passable grid (target cur mv')"
      using sub(5) True by auto
    moreover have "\<forall>mv' \<in> set (mv # ms). passable grid (target cur mv') \<longrightarrow> target cur mv' \<in> V'"
      using sub(4,6) by auto
    ultimately show ?thesis by blast
  next
    case False
    with Cons.prems
    have "fold (bfs_visit grid cur path) ms (Q, V) = (Q', V')"
      by (auto simp: mv Let_def target_def)
    from Cons.IH [OF this] obtain sub where sub:
      "set sub \<subseteq> set ms" "\<forall>R. sorted_wrt R ms \<longrightarrow> sorted_wrt R sub"
      "Q' = Q @ map (entry cur path) sub"
      "V' = V \<union> target cur ` set sub"
      "\<forall>mv' \<in> set sub. target cur mv' \<notin> V \<and> passable grid (target cur mv')"
      "\<forall>mv' \<in> set ms. passable grid (target cur mv') \<longrightarrow> target cur mv' \<in> V'"
      by blast
    have "set sub \<subseteq> set (mv # ms)"
      using sub(1) by auto
    moreover have "\<forall>R. sorted_wrt R (mv # ms) \<longrightarrow> sorted_wrt R sub"
      using sub(2) by auto
    moreover have "\<forall>mv' \<in> set (mv # ms). passable grid (target cur mv') \<longrightarrow> target cur mv' \<in> V'"
      using sub(4,6) False by auto
    ultimately show ?thesis using sub(3,4,5) by blast
  qed
qed

lemma po_trans: "(a, b) \<in> path_order \<Longrightarrow> (b, c) \<in> path_order \<Longrightarrow> (a, c) \<in> path_order"
  unfolding path_order_def by (rule lenlex_trans) (auto simp: trans_def)

lemma po_length: "(a, b) \<in> path_order \<Longrightarrow> length a \<le> length b"
  unfolding path_order_def by (rule lenlex_length)

lemma po_shorter: "length a < length b \<Longrightarrow> (a, b) \<in> path_order"
  by (simp add: path_order_def lenlex_conv)

lemma po_snoc: "(a, b) \<in> path_order \<Longrightarrow> (a @ [m], b @ [m']) \<in> path_order"
  unfolding path_order_def by (rule lenlex_append1) simp_all

lemma po_snoc_same: "move_rank m < move_rank m' \<Longrightarrow> (a @ [m], a @ [m']) \<in> path_order"
  unfolding path_order_def by (subst lenlex_append2) (auto simp: irrefl_def Cons_lenlex_iff)

lemma po_Nil: "([], a) \<in> path_order \<longleftrightarrow> a \<noteq> []"
  by (simp add: path_order_def)

lemma po_irrefl: "(a, a) \<notin> path_order"
  unfolding path_order_def by (rule lenlex_irreflexive) simp

lemma bfs_inv_init: "bfs_inv grid s g [(s, [])] {}"
  by (auto simp: bfs_inv_def po_Nil)

lemma bfs_inv_step:
  assumes inv: "bfs_inv grid s g ((p, \<pi>) # rest) V" and pg: "p \<noteq> g"
    and fold: "fold (bfs_visit grid p \<pi>) MOVES (rest, insert p V) = (Q', V')"
  shows "bfs_inv grid s g Q' V'"
proof -
  let ?ok = "passable grid"
  let ?Q = "(p, \<pi>) # rest"
  note c = inv [unfolded bfs_inv_def]
  note c1 = c [THEN conjunct1]
  note c2 = c [THEN conjunct2, THEN conjunct1]
  note c3 = c [THEN conjunct2, THEN conjunct2, THEN conjunct1]
  note c4 = c [THEN conjunct2, THEN conjunct2, THEN conjunct2, THEN conjunct1]
  note c5 = c [THEN conjunct2, THEN conjunct2, THEN conjunct2, THEN conjunct2, THEN conjunct1]
  note c6 = c [THEN conjunct2, THEN conjunct2, THEN conjunct2, THEN conjunct2, THEN conjunct2,
               THEN conjunct1]
  note c7 = c [THEN conjunct2, THEN conjunct2, THEN conjunct2, THEN conjunct2, THEN conjunct2,
               THEN conjunct2, THEN conjunct1]
  note c8 = c [THEN conjunct2, THEN conjunct2, THEN conjunct2, THEN conjunct2, THEN conjunct2,
               THEN conjunct2, THEN conjunct2]
  have I4: "fst ` set rest \<subseteq> V"
    using c4 by simp
  then have D: "V \<union> fst ` set ?Q = insert p V"
    by auto
  have I1: "walk ?ok s \<rho> = Some q" if "(q, \<rho>) \<in> set ?Q" for q \<rho>
    using c1 that by blast
  have I9: "\<rho> = \<rho>' \<or> (\<rho>, \<rho>') \<in> path_order"
    if "(q, \<rho>) \<in> set ?Q" "walk ?ok s \<rho>' = Some q" for q \<rho> \<rho>'
    using c1 that by blast
  have I8: "sorted_wrt (\<lambda>a b. (snd a, snd b) \<in> path_order) ?Q"
    by (rule c2)
  have I10: "(\<rho>, \<pi> @ [m]) \<in> path_order" if "(q, \<rho>) \<in> set ?Q" for q \<rho> m
    using c3 that by auto
  have I5a: "q \<in> insert p V" if "walk ?ok s \<pi>' = Some q" "length \<pi>' \<le> length \<pi>" for \<pi>' q
  proof -
    from c5 have "?Q \<noteq> [] \<longrightarrow> walk ?ok s \<pi>' = Some q \<longrightarrow>
        length \<pi>' \<le> length (snd (hd ?Q)) \<longrightarrow> q \<in> V \<union> fst ` set ?Q"
      by blast
    with that show ?thesis unfolding D by simp
  qed
  have I5b: "q = p \<or> q \<in> fst ` set rest \<or> target q mv \<in> insert p V"
    if "q \<in> insert p V" "mv \<in> set MOVES" "?ok (target q mv)" for q mv
  proof -
    from c6 that have "q \<in> fst ` set ?Q \<or> target q mv \<in> V \<union> fst ` set ?Q"
      unfolding D by blast
    then show ?thesis unfolding D by auto
  qed
  have I6: "g \<in> V \<Longrightarrow> g \<in> fst ` set rest"
    using c7 pg by auto
  have I7: "s \<in> insert p V"
    using c8 unfolding D .

  from bfs_visit_fold [OF fold] obtain sub where
    sub_set: "set sub \<subseteq> set MOVES" and
    sub_sorted: "\<forall>R. sorted_wrt R MOVES \<longrightarrow> sorted_wrt R sub" and
    Q': "Q' = rest @ map (entry p \<pi>) sub" and
    V': "V' = insert p V \<union> target p ` set sub" and
    sub_new: "\<forall>mv \<in> set sub. target p mv \<notin> insert p V \<and> ?ok (target p mv)" and
    nbrs: "\<forall>mv \<in> set MOVES. ?ok (target p mv) \<longrightarrow> target p mv \<in> V'"
    by blast
  have posQ': "fst ` set Q' = fst ` set rest \<union> target p ` set sub"
    by (simp add: Q' image_Un image_image entry_def)
  have D': "V' \<union> fst ` set Q' = V'"
    using I4 by (auto simp: posQ' V')
  have mono: "insert p V \<subseteq> V'"
    by (auto simp: V')
  have rest_ge: "(\<pi>, \<rho>) \<in> path_order" if "(q, \<rho>) \<in> set rest" for q \<rho>
    using I8 that by auto
  have Q_ge: "\<pi> = \<rho> \<or> (\<pi>, \<rho>) \<in> path_order" if "(q, \<rho>) \<in> set ?Q" for q \<rho>
    using rest_ge [of q \<rho>] that by auto

  have keyA: "length \<pi>'' = length \<pi> \<and> (\<pi> = \<pi>'' \<or> (\<pi>, \<pi>'') \<in> path_order) \<and>
              (p' = p \<or> (\<exists>\<rho>. (p', \<rho>) \<in> set rest \<and> length \<rho> \<le> length \<pi>''))"
    if w: "walk ?ok s \<pi>'' = Some p'" and len: "length \<pi>'' \<le> length \<pi>"
      and mv: "mv \<in> set MOVES" and ok: "?ok (target p' mv)" and out: "target p' mv \<notin> insert p V"
    for \<pi>'' p' mv
  proof -
    from I5a [OF w len] have "p' \<in> insert p V" .
    from I5b [OF this mv ok] out have "p' = p \<or> p' \<in> fst ` set rest"
      by blast
    then obtain \<rho> where \<rho>: "(p', \<rho>) \<in> set ?Q" and alt: "p' = p \<or> (p', \<rho>) \<in> set rest"
      by fastforce
    from I9 [OF \<rho> w] have le1: "\<rho> = \<pi>'' \<or> (\<rho>, \<pi>'') \<in> path_order" .
    from Q_ge [OF \<rho>] have le2: "\<pi> = \<rho> \<or> (\<pi>, \<rho>) \<in> path_order" .
    from le1 have l1: "length \<rho> \<le> length \<pi>''"
      by (auto dest: po_length)
    from le2 have l2: "length \<pi> \<le> length \<rho>"
      by (auto dest: po_length)
    from le1 le2 have "\<pi> = \<pi>'' \<or> (\<pi>, \<pi>'') \<in> path_order"
      by (auto intro: po_trans)
    with l1 l2 len alt show ?thesis by auto
  qed

  have new_walk: "walk ?ok s (\<pi> @ [fst mv]) = Some (target p mv)" if "mv \<in> set sub" for mv
  proof -
    have "walk ?ok s \<pi> = Some p"
      by (rule I1) simp
    moreover have "(fst mv, snd mv) \<in> set MOVES"
      using that sub_set by auto
    moreover have "?ok (target p mv)"
      using that sub_new by blast
    moreover have "target p mv = target p (fst mv, snd mv)"
      by simp
    ultimately show ?thesis
      unfolding walk_snoc by metis
  qed
  have new_least: "\<pi> @ [fst mv] = \<pi>' \<or> (\<pi> @ [fst mv], \<pi>') \<in> path_order"
    if mv: "mv \<in> set sub" and w: "walk ?ok s \<pi>' = Some (target p mv)" for mv \<pi>'
  proof (cases \<pi>' rule: rev_cases)
    case Nil
    with w have "target p mv = s" by simp
    with I7 sub_new mv show ?thesis by auto
  next
    case (snoc \<pi>'' m')
    from w [unfolded snoc walk_snoc] obtain p' d' where
      w'': "walk ?ok s \<pi>'' = Some p'" and md: "(m', d') \<in> set MOVES"
      and tq: "target p mv = target p' (m', d')" and okq: "?ok (target p mv)"
      by blast
    have out: "target p' (m', d') \<notin> insert p V"
      using sub_new mv tq by auto
    show ?thesis
    proof (cases "length \<pi>'' \<le> length \<pi>")
      case False
      then show ?thesis
        by (auto simp: snoc intro: po_shorter)
    next
      case True
      from keyA [OF w'' True md _ out] okq tq
      have len: "length \<pi>'' = length \<pi>" and le: "\<pi> = \<pi>'' \<or> (\<pi>, \<pi>'') \<in> path_order"
        by auto
      from le show ?thesis
      proof
        assume eq: "\<pi> = \<pi>''"
        have "walk ?ok s \<pi> = Some p"
          by (rule I1) simp
        with w'' eq have "p' = p" by simp
        with tq have "snd mv = d'"
          by (auto simp: target_def prod_eq_iff)
        moreover have "(fst mv, snd mv) \<in> set MOVES"
          using mv sub_set by auto
        ultimately have "fst mv = m'"
          using md by (auto dest: MOVES_offset_inj)
        with eq show ?thesis by (simp add: snoc)
      next
        assume "(\<pi>, \<pi>'') \<in> path_order"
        then show ?thesis
          by (auto simp: snoc intro: po_snoc)
      qed
    qed
  qed

  have J1: "\<forall>(q, \<rho>) \<in> set Q'. walk ?ok s \<rho> = Some q \<and>
              (\<forall>\<rho>'. walk ?ok s \<rho>' = Some q \<longrightarrow> \<rho> = \<rho>' \<or> (\<rho>, \<rho>') \<in> path_order)"
  proof (clarify, intro conjI allI impI)
    fix q \<rho> assume a: "(q, \<rho>) \<in> set Q'"
    then consider "(q, \<rho>) \<in> set rest" | mv where "mv \<in> set sub" "q = target p mv" "\<rho> = \<pi> @ [fst mv]"
      by (auto simp: Q' entry_def)
    then show "walk ?ok s \<rho> = Some q"
      by cases (auto intro: I1 new_walk)
    fix \<rho>' assume w: "walk ?ok s \<rho>' = Some q"
    from a consider "(q, \<rho>) \<in> set rest" | mv where "mv \<in> set sub" "q = target p mv" "\<rho> = \<pi> @ [fst mv]"
      by (auto simp: Q' entry_def)
    then show "\<rho> = \<rho>' \<or> (\<rho>, \<rho>') \<in> path_order"
    proof cases
      case 1
      then have "(q, \<rho>) \<in> set ?Q" by simp
      from I9 [OF this w] show ?thesis .
    next
      case 2
      with new_least [of mv \<rho>'] w show ?thesis by simp
    qed
  qed

  have J8: "sorted_wrt (\<lambda>a b. (snd a, snd b) \<in> path_order) Q'"
  proof -
    have "sorted_wrt (\<lambda>a b. (snd a, snd b) \<in> path_order) rest"
      using I8 by simp
    moreover have "sorted_wrt (\<lambda>a b. (snd (entry p \<pi> a), snd (entry p \<pi> b)) \<in> path_order) sub"
    proof -
      have "sorted_wrt (\<lambda>a b. (snd (entry p \<pi> a), snd (entry p \<pi> b)) \<in> path_order) MOVES"
        by (rule sorted_wrt_mono_rel [OF _ MOVES_sorted]) (simp add: entry_def po_snoc_same)
      with sub_sorted show ?thesis by blast
    qed
    moreover have "\<forall>x \<in> set rest. \<forall>y \<in> set (map (entry p \<pi>) sub). (snd x, snd y) \<in> path_order"
    proof (intro ballI)
      fix x y assume "x \<in> set rest" "y \<in> set (map (entry p \<pi>) sub)"
      then obtain mv where "y = entry p \<pi> mv" and "(fst x, snd x) \<in> set ?Q"
        by auto
      with I10 [of "fst x" "snd x" "fst mv"] show "(snd x, snd y) \<in> path_order"
        by (simp add: entry_def)
    qed
    ultimately show ?thesis
      by (simp add: Q' sorted_wrt_append sorted_wrt_map)
  qed

  have Q'_len: "length \<rho> \<le> Suc (length \<pi>)" if "(q, \<rho>) \<in> set Q'" for q \<rho>
  proof -
    from that consider "(q, \<rho>) \<in> set rest" | mv where "\<rho> = \<pi> @ [fst (mv :: move \<times> (int \<times> int))]"
      by (auto simp: Q' entry_def)
    then show ?thesis
    proof cases
      case 1
      then have "(q, \<rho>) \<in> set ?Q" by simp
      from po_length [OF I10 [OF this, of undefined]] show ?thesis by simp
    next
      case 2
      then show ?thesis by simp
    qed
  qed
  have hd_least: "length (snd (hd Q')) \<le> length \<rho>" if "(q, \<rho>) \<in> set Q'" for q \<rho>
  proof (cases Q')
    case Nil
    with that show ?thesis by simp
  next
    case (Cons a as)
    with J8 that have "snd a = \<rho> \<or> (snd a, \<rho>) \<in> path_order"
      by auto
    then show ?thesis
      by (auto simp: Cons dest: po_length)
  qed

  have J10: "\<forall>(q, \<rho>) \<in> set Q'. \<forall>m. (\<rho>, snd (hd Q') @ [m]) \<in> path_order"
  proof (clarify)
    fix q \<rho> m assume a: "(q, \<rho>) \<in> set Q'"
    show "(\<rho>, snd (hd Q') @ [m]) \<in> path_order"
    proof (cases rest)
      case Nil
      with a have "Q' \<noteq> []" "set Q' = entry p \<pi> ` set sub"
        by (auto simp: Q')
      then have "hd Q' \<in> entry p \<pi> ` set sub"
        by (metis hd_in_set)
      then have "length (snd (hd Q')) = Suc (length \<pi>)"
        by (auto simp: entry_def)
      with Q'_len [OF a] show ?thesis
        by (intro po_shorter) simp
    next
      case (Cons b bs)
      then have hd: "hd Q' = b" and b: "(fst b, snd b) \<in> set rest"
        by (simp_all add: Q')
      from rest_ge [OF b] have le: "(\<pi>, snd b) \<in> path_order" .
      from a consider "(q, \<rho>) \<in> set rest" | mv where "\<rho> = \<pi> @ [fst (mv :: move \<times> (int \<times> int))]"
        by (auto simp: Q' entry_def)
      then show ?thesis
      proof cases
        case 1
        then have "(q, \<rho>) \<in> set ?Q" by simp
        from I10 [OF this] have "(\<rho>, \<pi> @ [m]) \<in> path_order" .
        from po_trans [OF this po_snoc [OF le]] show ?thesis
          by (simp add: hd)
      next
        case 2
        with po_snoc [OF le] show ?thesis
          by (simp add: hd)
      qed
    qed
  qed

  have J4: "fst ` set (tl Q') \<subseteq> V'"
  proof -
    have "set (tl Q') \<subseteq> set Q'"
      by (cases Q') auto
    then have "fst ` set (tl Q') \<subseteq> fst ` set Q'"
      by blast
    with D' show ?thesis by blast
  qed

  have J5b: "\<forall>q \<in> V' \<union> fst ` set Q'. q \<in> fst ` set Q' \<or>
        (\<forall>mv \<in> set MOVES. ?ok (target q mv) \<longrightarrow> target q mv \<in> V' \<union> fst ` set Q')"
    unfolding D'
  proof (intro ballI)
    fix q assume "q \<in> V'"
    then consider "q \<in> target p ` set sub" | "q = p" | "q \<in> insert p V" "q \<noteq> p"
      by (auto simp: V')
    then show "q \<in> fst ` set Q' \<or> (\<forall>mv \<in> set MOVES. ?ok (target q mv) \<longrightarrow> target q mv \<in> V')"
    proof cases
      case 1
      then show ?thesis by (simp add: posQ')
    next
      case 2
      with nbrs show ?thesis by simp
    next
      case 3
      show ?thesis
      proof (cases "q \<in> fst ` set rest")
        case True
        then show ?thesis by (simp add: posQ')
      next
        case False
        with I5b [OF 3(1)] 3(2) mono show ?thesis by blast
      qed
    qed
  qed

  have J5a: "\<forall>\<pi>' q. Q' \<noteq> [] \<longrightarrow> walk ?ok s \<pi>' = Some q \<longrightarrow>
        length \<pi>' \<le> length (snd (hd Q')) \<longrightarrow> q \<in> V' \<union> fst ` set Q'"
    unfolding D'
  proof (intro allI impI)
    fix \<pi>' q
    assume ne: "Q' \<noteq> []" and w: "walk ?ok s \<pi>' = Some q"
      and len: "length \<pi>' \<le> length (snd (hd Q'))"
    from ne have hdQ: "(fst (hd Q'), snd (hd Q')) \<in> set Q'"
      by simp
    from Q'_len [OF hdQ] have hlen: "length (snd (hd Q')) \<le> Suc (length \<pi>)" .
    show "q \<in> V'"
    proof (cases "length \<pi>' \<le> length \<pi>")
      case True
      from I5a [OF w True] mono show ?thesis by blast
    next
      case False
      with len hlen have l: "length \<pi>' = Suc (length \<pi>)" "length (snd (hd Q')) = Suc (length \<pi>)"
        by auto
      then obtain \<pi>'' m' where snoc: "\<pi>' = \<pi>'' @ [m']"
        by (cases \<pi>' rule: rev_cases) auto
      with l have l'': "length \<pi>'' \<le> length \<pi>" by simp
      from w [unfolded snoc walk_snoc] obtain p' d' where
        w'': "walk ?ok s \<pi>'' = Some p'" and md: "(m', d') \<in> set MOVES"
        and tq: "q = target p' (m', d')" and okq: "?ok q"
        by blast
      show ?thesis
      proof (rule ccontr)
        assume nq: "q \<notin> V'"
        with mono have out: "target p' (m', d') \<notin> insert p V"
          using tq by blast
        from keyA [OF w'' l'' md _ out] okq tq
        have "p' = p \<or> (\<exists>\<rho>. (p', \<rho>) \<in> set rest \<and> length \<rho> \<le> length \<pi>'')"
          by blast
        then show False
        proof
          assume "p' = p"
          with nbrs md okq tq nq show False by blast
        next
          assume "\<exists>\<rho>. (p', \<rho>) \<in> set rest \<and> length \<rho> \<le> length \<pi>''"
          then obtain \<rho> where r: "(p', \<rho>) \<in> set rest" and rl: "length \<rho> \<le> length \<pi>''"
            by blast
          from r have "(p', \<rho>) \<in> set Q'"
            by (simp add: Q')
          from hd_least [OF this] rl l'' l show False by simp
        qed
      qed
    qed
  qed

  have J6: "g \<in> V' \<longrightarrow> g \<in> fst ` set Q'"
    using I6 pg by (auto simp: V' posQ')
  have J7: "s \<in> V' \<union> fst ` set Q'"
    using I7 mono by blast
  show ?thesis
    unfolding bfs_inv_def by (intro conjI J1 J8 J10 J4 J5a J5b J6 J7)
qed

lemma walk_closed:
  assumes "s \<in> D"
    and "\<forall>q \<in> D. \<forall>mv \<in> set MOVES. ok (target q mv) \<longrightarrow> target q mv \<in> D"
  shows "walk ok s \<pi> = Some q \<Longrightarrow> q \<in> D"
proof (induction \<pi> arbitrary: q rule: rev_induct)
  case Nil
  with assms(1) show ?case by simp
next
  case (snoc m \<pi>)
  from snoc.prems [unfolded walk_snoc] obtain p d where
    "walk ok s \<pi> = Some p" "(m, d) \<in> set MOVES" "q = target p (m, d)" "ok q"
    by blast
  with snoc.IH [of p] assms(2) show ?case by blast
qed

lemma bfs_loop_correct:
  "bfs_inv grid s g Q V \<Longrightarrow> bfs_post grid s g (bfs_loop grid g Q V)"
proof (induction grid g Q V rule: bfs_loop.induct)
  case (1 grid goal visited)
  note c = "1.prems" [unfolded bfs_inv_def]
  note c6 = c [THEN conjunct2, THEN conjunct2, THEN conjunct2, THEN conjunct2, THEN conjunct2,
               THEN conjunct1]
  note c7 = c [THEN conjunct2, THEN conjunct2, THEN conjunct2, THEN conjunct2, THEN conjunct2,
               THEN conjunct2, THEN conjunct1]
  note c8 = c [THEN conjunct2, THEN conjunct2, THEN conjunct2, THEN conjunct2, THEN conjunct2,
               THEN conjunct2, THEN conjunct2]
  have s: "s \<in> visited"
    using c8 by simp
  have closed: "\<forall>q \<in> visited. \<forall>mv \<in> set MOVES.
      passable grid (target q mv) \<longrightarrow> target q mv \<in> visited"
    using c6 by simp
  have "goal \<notin> visited"
    using c7 by simp
  with walk_closed [OF s closed] have "\<forall>\<pi>'. walk (passable grid) s \<pi>' \<noteq> Some goal"
    by blast
  then show ?case
    by (simp add: bfs_post_def)
next
  case (2 grid goal current path queue visited)
  show ?case
  proof (cases "current = goal")
    case True
    from "2.prems" [unfolded bfs_inv_def, THEN conjunct1]
    have "walk (passable grid) s path = Some current \<and>
        (\<forall>\<pi>'. walk (passable grid) s \<pi>' = Some current \<longrightarrow> path = \<pi>' \<or> (path, \<pi>') \<in> path_order)"
      by simp
    with True show ?thesis
      by (simp add: bfs_post_def)
  next
    case False
    obtain Q' V' where f: "fold (bfs_visit grid current path) MOVES (queue, insert current visited)
        = (Q', V')"
      by (cases "fold (bfs_visit grid current path) MOVES (queue, insert current visited)")
    from bfs_inv_step [OF "2.prems" False f] have "bfs_inv grid s goal Q' V'" .
    from "2.IH" [OF False f [symmetric] this] have "bfs_post grid s goal (bfs_loop grid goal Q' V')" .
    with False f show ?thesis
      by simp
  qed
qed

lemma bfs_correct: "bfs_post grid s g (bfs grid s g)"
  unfolding bfs_def by (rule bfs_loop_correct) (rule bfs_inv_init)

subsection \<open>The obstacle map\<close>

lemma map_of_base:
  "map_of (concat (map (\<lambda>x. map (\<lambda>y. ((x, y), CHR ''.'')) [0..9]) [0..9])) p =
     (if in_bounds p then Some (CHR ''.'') else None)"
proof -
  define base :: grid where
    "base = concat (map (\<lambda>x. map (\<lambda>y. ((x, y), CHR ''.'')) [0..9]) [0..9])"
  have mem: "(q, c) \<in> set base \<longleftrightarrow> in_bounds q \<and> c = CHR ''.''" for q c
  proof -
    obtain a b where q: "q = (a, b)"
      by (cases q)
    have "((a, b), c) \<in> set base \<longleftrightarrow>
        (\<exists>x \<in> {0..9}. \<exists>y \<in> {0..9}. a = x \<and> b = y \<and> c = CHR ''.'')"
      by (simp add: base_def image_iff)
    also have "\<dots> \<longleftrightarrow> in_bounds (a, b) \<and> c = CHR ''.''"
      by (simp add: in_bounds_def) linarith
    finally show ?thesis by (simp add: q)
  qed
  have "map_of base p = (if in_bounds p then Some (CHR ''.'') else None)"
  proof (cases "map_of base p")
    case None
    then have "p \<notin> fst ` set base"
      by (simp add: map_of_eq_None_iff)
    moreover have "in_bounds p \<Longrightarrow> p \<in> fst ` set base"
      using mem [of p "CHR ''.''"] by force
    ultimately show ?thesis using None by auto
  next
    case (Some c)
    from map_of_SomeD [OF this] have "in_bounds p \<and> c = CHR ''.''"
      by (simp add: mem)
    with Some show ?thesis by simp
  qed
  then show ?thesis
    by (simp only: base_def)
qed

lemma map_of_fold_update:
  "map_of (fold (\<lambda>wall grid. AList.update wall c grid) ws base) p =
     (if p \<in> set ws then Some c else map_of base p)"
  by (induction ws arbitrary: base) (auto simp: update_conv')

lemma map_of_make_grid:
  "map_of (make_grid wall_positions) p =
     (if p \<in> set wall_positions then Some (CHR ''W'')
      else if in_bounds p then Some (CHR ''.'') else None)"
  unfolding make_grid_def map_of_fold_update map_of_base ..

lemma passable_make_grid: "passable (make_grid wall_positions) = free_cell wall_positions"
  by (rule ext) (simp add: passable_def map_of_make_grid free_cell_def)

subsection \<open>What \<open>bfs\<close> returns\<close>

lemma po_antisym: "(a, b) \<in> path_order \<Longrightarrow> (b, a) \<notin> path_order"
  using po_trans [of a b a] po_irrefl [of a] by blast

lemma bfs_post_unique: "bfs_post grid s g r \<Longrightarrow> bfs_post grid s g r' \<Longrightarrow> r = r'"
  unfolding bfs_post_def using po_antisym by blast

lemma bfs_post_cong:
  "passable grid = passable grid' \<Longrightarrow> bfs_post grid s g r = bfs_post grid' s g r"
  by (simp add: bfs_post_def)

lemma bfs_cong: "passable grid = passable grid' \<Longrightarrow> bfs grid s g = bfs grid' s g"
  using bfs_post_unique [OF bfs_correct [of grid s g], of "bfs grid' s g"]
    bfs_correct [of grid' s g] bfs_post_cong [of grid grid' s g "bfs grid' s g"]
  by simp

lemma bfs_walk:
  "walk (passable grid) s \<pi> = Some g \<Longrightarrow>
   walk (passable grid) s (bfs grid s g) = Some g \<and>
   (bfs grid s g = \<pi> \<or> (bfs grid s g, \<pi>) \<in> path_order)"
  using bfs_correct [of grid s g] unfolding bfs_post_def by blast

lemma bfs_unreachable:
  "\<forall>\<pi>. walk (passable grid) s \<pi> \<noteq> Some g \<Longrightarrow> bfs grid s g = []"
  using bfs_correct [of grid s g] unfolding bfs_post_def by blast

lemma bfs_make_grid_walk:
  "walk (free_cell wall_positions) start path = Some goal \<Longrightarrow>
   walk (free_cell wall_positions) start (bfs (make_grid wall_positions) start goal) = Some goal \<and>
   length (bfs (make_grid wall_positions) start goal) \<le> length path"
  using bfs_walk [of "make_grid wall_positions" start path goal]
  by (auto simp: passable_make_grid dest: po_length)

subsection \<open>The runtime helpers and the three branches of a decision cycle\<close>

lemma min_key_from_split:
  "\<exists>ys zs. b # xs = ys @ min_key_from f b xs # zs \<and>
     (\<forall>y \<in> set ys. f (min_key_from f b xs) < f y) \<and>
     (\<forall>z \<in> set zs. f (min_key_from f b xs) \<le> f z)"
proof (induction xs arbitrary: b)
  case Nil
  have "[b] = [] @ min_key_from f b [] # [] \<and>
      (\<forall>y \<in> set []. f (min_key_from f b []) < f y) \<and>
      (\<forall>z \<in> set []. f (min_key_from f b []) \<le> f z)"
    by simp
  then show ?case by blast
next
  case (Cons x xs)
  show ?case
  proof (cases "f x < f b")
    case True
    let ?t = "min_key_from f x xs"
    from Cons.IH [of x] obtain ys zs where s: "x # xs = ys @ ?t # zs"
      and lt: "\<forall>y \<in> set ys. f ?t < f y" and le: "\<forall>z \<in> set zs. f ?t \<le> f z"
      by blast
    have "f ?t \<le> f x"
    proof (cases ys)
      case Nil
      from s [unfolded Nil append_Nil] have "x = ?t \<and> xs = zs" by (rule iffD1 [OF list.inject])
      then have "x = ?t" by blast
      then have "f x = f ?t" by (rule arg_cong)
      then show ?thesis by linarith
    next
      case (Cons y ys')
      from s [unfolded Cons append_Cons]
      have "x = y \<and> xs = ys' @ ?t # zs" by (rule iffD1 [OF list.inject])
      then have "x \<in> set ys" by (simp add: Cons)
      with lt have "f ?t < f x" by blast
      then show ?thesis by simp
    qed
    with True have "f ?t < f b" by simp
    with s lt le have "b # x # xs = (b # ys) @ ?t # zs \<and>
        (\<forall>y \<in> set (b # ys). f ?t < f y) \<and> (\<forall>z \<in> set zs. f ?t \<le> f z)"
      by simp
    moreover have "min_key_from f b (x # xs) = ?t"
      using True by simp
    ultimately show ?thesis
      by (metis (no_types))
  next
    case False
    let ?t = "min_key_from f b xs"
    from Cons.IH [of b] obtain ys zs where s: "b # xs = ys @ ?t # zs"
      and lt: "\<forall>y \<in> set ys. f ?t < f y" and le: "\<forall>z \<in> set zs. f ?t \<le> f z"
      by blast
    have "\<exists>ys' zs'. b # x # xs = ys' @ ?t # zs' \<and>
        (\<forall>y \<in> set ys'. f ?t < f y) \<and> (\<forall>z \<in> set zs'. f ?t \<le> f z)"
    proof (cases ys)
      case Nil
      from s [unfolded Nil append_Nil]
      have "b = ?t \<and> xs = zs" by (rule iffD1 [OF list.inject])
      then have "?t = b" "zs = xs" by (rule conjunct1 [THEN sym], rule conjunct2 [THEN sym])
      with le False have "b # x # xs = [] @ ?t # (x # xs) \<and>
          (\<forall>y \<in> set []. f ?t < f y) \<and> (\<forall>z \<in> set (x # xs). f ?t \<le> f z)"
        by simp
      then show ?thesis by blast
    next
      case (Cons y ys')
      from s [unfolded Cons append_Cons]
      have c: "b = y \<and> xs = ys' @ ?t # zs" by (rule iffD1 [OF list.inject])
      from c have y: "y = b" by (rule conjunct1 [THEN sym])
      from c have xs: "xs = ys' @ ?t # zs" by (rule conjunct2)
      from lt Cons y have "f ?t < f b" by simp
      with False have "f ?t < f x" by simp
      with xs lt le Cons y have "b # x # xs = (b # x # ys') @ ?t # zs \<and>
          (\<forall>y \<in> set (b # x # ys'). f ?t < f y) \<and> (\<forall>z \<in> set zs. f ?t \<le> f z)"
        by simp
      then show ?thesis by blast
    qed
    moreover have "min_key_from f b (x # xs) = ?t"
      using False by simp
    ultimately show ?thesis
      by (simp only:)
  qed
qed

lemma min_key_split:
  assumes "xs \<noteq> []"
  shows "\<exists>t ys zs. min_key f xs = Inr t \<and> xs = ys @ t # zs \<and>
     (\<forall>y \<in> set ys. f t < f y) \<and> (\<forall>z \<in> set zs. f t \<le> f z)"
proof -
  from assms obtain b rest where xs: "xs = b # rest"
    by (cases xs) auto
  have "min_key f xs = Inr (min_key_from f b rest)"
    by (simp add: min_key_def xs)
  with min_key_from_split [of b rest f] show ?thesis
    unfolding xs by blast
qed

lemma random_choice_MOVES:
  "random_choice (map fst MOVES) rnd = Inr (pick_move [] rnd)"
  by (simp add: random_choice_def pick_move_def MOVES_def)

lemma pick_move_Nil_valid: "pick_move [] rnd \<in> fst ` set MOVES"
proof -
  have "rnd mod length MOVES < length (map fst MOVES)"
    by (simp add: MOVES_def)
  then have "map fst MOVES ! (rnd mod length MOVES) \<in> set (map fst MOVES)"
    by (rule nth_mem)
  then show ?thesis
    by (simp add: pick_move_def)
qed

lemma bfs_self: "bfs grid s s = []"
  by (simp add: bfs_def)

lemma walk_hd_valid: "walk ok s (m # ms) = Some g \<Longrightarrow> m \<in> fst ` set MOVES"
proof -
  assume "walk ok s (m # ms) = Some g"
  then obtain d where "map_of MOVES m = Some d"
    by (cases "map_of MOVES m") auto
  then have "(m, d) \<in> set MOVES"
    by (simp add: map_of_MOVES)
  then show ?thesis by force
qed

lemma bfs_hd_valid: "bfs grid s g \<noteq> [] \<Longrightarrow> hd (bfs grid s g) \<in> fst ` set MOVES"
proof -
  assume ne: "bfs grid s g \<noteq> []"
  with bfs_correct [of grid s g] have "walk (passable grid) s (bfs grid s g) = Some g"
    by (auto simp: bfs_post_def)
  with ne show ?thesis
    by (cases "bfs grid s g") (auto simp del: walk.simps dest: walk_hd_valid)
qed

lemma pick_move_bfs_valid: "pick_move (bfs grid s g) rnd \<in> fst ` set MOVES"
  using bfs_hd_valid [of grid s g] pick_move_Nil_valid [of rnd]
  by (cases "bfs grid s g = []") (simp_all add: pick_move_def)

lemma decision_cycle_real:
  assumes "coin1 gs @ coin2 gs @ coin3 gs \<noteq> []"
    and "min_key (manhattan_distance (currentPosition gs)) (coin1 gs @ coin2 gs @ coin3 gs) = Inr t"
  shows "decision_cycle fakes gs rnd =
     Inr (fakes, pick_move (bfs (make_grid (walls gs)) (currentPosition gs) t) rnd)"
  using assms
  by (simp add: decision_cycle_def Let_def py_bind_def random_choice_MOVES)
     (simp add: pick_move_def)

lemma decision_cycle_fake:
  assumes "coin1 gs @ coin2 gs @ coin3 gs = []" and "fakes \<noteq> []"
    and "min_key (manhattan_distance (currentPosition gs)) fakes = Inr t"
  shows "decision_cycle fakes gs rnd =
     Inr (if manhattan_distance (currentPosition gs) t \<le> 2 then remove1 t fakes else fakes,
          pick_move (bfs (make_grid (walls gs)) (currentPosition gs) t) rnd)"
proof -
  from min_key_split [OF assms(2), of "manhattan_distance (currentPosition gs)"] assms(3)
  have t: "t \<in> set fakes" by auto
  have dead: "bfs (make_grid (walls gs)) (currentPosition gs) t \<noteq> [] \<Longrightarrow> currentPosition gs \<noteq> t"
    using bfs_self [of "make_grid (walls gs)" t] by auto
  show ?thesis
    using assms t dead
    by (simp add: decision_cycle_def Let_def py_bind_def random_choice_MOVES list_remove_def)
       (simp add: pick_move_def)
qed

lemma decision_cycle_none:
  assumes "coin1 gs @ coin2 gs @ coin3 gs = []" and "fakes = []"
  shows "decision_cycle fakes gs rnd = Inr (fakes, pick_move [] rnd)"
  using assms
  by (simp add: decision_cycle_def Let_def py_bind_def random_choice_MOVES)

lemma manhattan_nonneg: "0 \<le> manhattan_distance a b"
  by (simp add: manhattan_distance_def)

lemma manhattan_zero: "manhattan_distance a b \<le> 0 \<Longrightarrow> b = a"
  by (cases a, cases b) (simp add: manhattan_distance_def, arith)

lemma remove1_shrinks: "set (remove1 t xs) \<subseteq> set xs \<and> length (remove1 t xs) \<le> length xs"
  by (simp add: set_remove1_subset length_remove1)

lemma decision_cycle_total_aux:
  "\<exists>fakes' m. decision_cycle fakes gs rnd = Inr (fakes', m) \<and> m \<in> fst ` set MOVES \<and>
     (fakes' = fakes \<or> (\<exists>t. fakes' = remove1 t fakes))"
proof (cases "coin1 gs @ coin2 gs @ coin3 gs = []")
  case False
  from min_key_split [OF False, of "manhattan_distance (currentPosition gs)"]
  obtain t where "min_key (manhattan_distance (currentPosition gs))
      (coin1 gs @ coin2 gs @ coin3 gs) = Inr t"
    by blast
  from decision_cycle_real [OF False this, of fakes rnd]
    pick_move_bfs_valid [of "make_grid (walls gs)" "currentPosition gs" t rnd]
  show ?thesis by blast
next
  case True
  show ?thesis
  proof (cases "fakes = []")
    case Nil: True
    from decision_cycle_none [OF \<open>coin1 gs @ coin2 gs @ coin3 gs = []\<close> Nil, of rnd]
      pick_move_Nil_valid [of rnd]
    show ?thesis by blast
  next
    case False
    from min_key_split [OF False, of "manhattan_distance (currentPosition gs)"]
    obtain t where "min_key (manhattan_distance (currentPosition gs)) fakes = Inr t"
      by blast
    from decision_cycle_fake [OF True False this, of rnd]
    have "decision_cycle fakes gs rnd =
        Inr (if manhattan_distance (currentPosition gs) t \<le> 2 then remove1 t fakes else fakes,
             pick_move (bfs (make_grid (walls gs)) (currentPosition gs) t) rnd)" .
    moreover have "(if manhattan_distance (currentPosition gs) t \<le> 2 then remove1 t fakes else fakes)
        = fakes \<or> (if manhattan_distance (currentPosition gs) t \<le> 2
              then remove1 t fakes else fakes) = remove1 t fakes"
      by simp
    then have "(if manhattan_distance (currentPosition gs) t \<le> 2 then remove1 t fakes else fakes)
        = fakes \<or> (\<exists>t'. (if manhattan_distance (currentPosition gs) t \<le> 2
              then remove1 t fakes else fakes) = remove1 t' fakes)"
      by blast
    ultimately show ?thesis
      using pick_move_bfs_valid [of "make_grid (walls gs)" "currentPosition gs" t rnd] by blast
  qed
qed

lemma fake_trace_bound:
  "x \<in> set (fake_trace fakes inputs) \<Longrightarrow> set x \<subseteq> set fakes \<and> length x \<le> length fakes"
proof (induction inputs arbitrary: fakes)
  case Nil
  then show ?case by simp
next
  case (Cons a inputs)
  obtain gs rnd where a: "a = (gs, rnd)"
    by (cases a)
  from decision_cycle_total_aux [of fakes gs rnd] obtain fakes' m where
    d: "decision_cycle fakes gs rnd = Inr (fakes', m)"
    and sh: "fakes' = fakes \<or> (\<exists>t. fakes' = remove1 t fakes)"
    by blast
  from sh have le: "set fakes' \<subseteq> set fakes \<and> length fakes' \<le> length fakes"
    by (elim disjE exE) (simp_all only: remove1_shrinks subset_refl le_refl simp_thms)
  from Cons.prems have "x = fakes \<or> x \<in> set (fake_trace fakes' inputs)"
    by (simp add: a d)
  then show ?case
  proof
    assume "x = fakes"
    then show ?thesis by simp
  next
    assume "x \<in> set (fake_trace fakes' inputs)"
    from Cons.IH [OF this] le show ?thesis by auto
  qed
qed

lemma fake_trace_sorted:
  "sorted_wrt (\<lambda>a b. set b \<subseteq> set a \<and> length b \<le> length a) (fake_trace fakes inputs)"
proof (induction inputs arbitrary: fakes)
  case Nil
  show ?case by simp
next
  case (Cons a inputs)
  obtain gs rnd where a: "a = (gs, rnd)"
    by (cases a)
  from decision_cycle_total_aux [of fakes gs rnd] obtain fakes' m where
    d: "decision_cycle fakes gs rnd = Inr (fakes', m)"
    and sh: "fakes' = fakes \<or> (\<exists>t. fakes' = remove1 t fakes)"
    by blast
  from sh have le: "set fakes' \<subseteq> set fakes \<and> length fakes' \<le> length fakes"
    by (elim disjE exE) (simp_all only: remove1_shrinks subset_refl le_refl simp_thms)
  have "\<forall>x \<in> set (fake_trace fakes' inputs). set x \<subseteq> set fakes \<and> length x \<le> length fakes"
  proof
    fix x assume "x \<in> set (fake_trace fakes' inputs)"
    from fake_trace_bound [OF this] le
    show "set x \<subseteq> set fakes \<and> length x \<le> length fakes"
      by (meson order_trans)
  qed
  with Cons.IH [of fakes'] show ?case
    by (simp add: a d)
qed

lemma fake_trace_length: "length (fake_trace fakes inputs) = Suc (length inputs)"
proof (induction inputs arbitrary: fakes)
  case Nil
  show ?case by simp
next
  case (Cons a inputs)
  obtain gs rnd where a: "a = (gs, rnd)"
    by (cases a)
  from decision_cycle_total_aux [of fakes gs rnd] obtain fakes' m where
    d: "decision_cycle fakes gs rnd = Inr (fakes', m)"
    by blast
  with Cons.IH [of fakes'] show ?case
    by (simp add: a)
qed

lemma fake_trace_hd: "fake_trace fakes inputs ! 0 = fakes"
  by (cases inputs) auto

lemma fake_trace_mono:
  assumes "i \<le> j" and "j \<le> length inputs"
  shows "set (fake_trace fakes inputs ! j) \<subseteq> set (fake_trace fakes inputs ! i) \<and>
         length (fake_trace fakes inputs ! j) \<le> length (fake_trace fakes inputs ! i)"
proof (cases "i = j")
  case True
  then show ?thesis by simp
next
  case False
  with assms have "i < j" "j < length (fake_trace fakes inputs)"
    by (simp_all add: fake_trace_length)
  with fake_trace_sorted [of fakes inputs] show ?thesis
    unfolding sorted_wrt_iff_nth_less by blast
qed

section \<open>The claims about the path finder\<close>

text \<open>
  C1. On the obstacle map built from any wall list, for any start and goal such that
  some sequence of moves leads from the start to the goal entering only in-bounds
  non-wall cells, the sequence \<open>bfs\<close> returns also leads from the start to the goal
  entering only in-bounds non-wall cells, and it is no longer than any such sequence:
  its length is the shortest-path distance over the 4-neighbourhood. The start cell is
  where the player stands; only the cells a move enters are tested.
\<close>

theorem bfs_shortest_path:
  "walk (free_cell wall_positions) start path = Some goal \<Longrightarrow>
   walk (free_cell wall_positions) start (bfs (make_grid wall_positions) start goal) = Some goal \<and>
   length (bfs (make_grid wall_positions) start goal) \<le> length path"
  by (rule bfs_make_grid_walk)

theorem bfs_shortest_path_witness:
  "walk (free_cell [(5, 6)]) (5, 5) [''DOWN'', ''RIGHT'', ''RIGHT'', ''UP''] = Some (5, 7) \<and>
   walk (free_cell [(5, 6)]) (5, 5) (bfs (make_grid [(5, 6)]) (5, 5) (5, 7)) = Some (5, 7) \<and>
   length (bfs (make_grid [(5, 6)]) (5, 5) (5, 7)) \<le> length [''DOWN'', ''RIGHT'', ''RIGHT'', ''UP'']"
proof -
  have h: "walk (free_cell [(5, 6)]) (5, 5) [''DOWN'', ''RIGHT'', ''RIGHT'', ''UP''] = Some (5, 7)"
    by (simp add: MOVES_def free_cell_def in_bounds_def)
  from h bfs_shortest_path [OF h] show ?thesis by blast
qed

text \<open>
  C6. On the obstacle map built from any wall list and for any start and goal, \<open>bfs\<close>
  returns the empty sequence exactly when the start is the goal or no sequence of moves
  leads from the start to the goal through in-bounds non-wall cells. \<open>bfs\<close> is a total
  function into move sequences: the loop terminates on every input and no statement of
  it can raise.
\<close>

theorem bfs_empty_iff:
  "bfs (make_grid wall_positions) start goal = [] \<longleftrightarrow>
     start = goal \<or> (\<forall>path. walk (free_cell wall_positions) start path \<noteq> Some goal)"
proof
  assume e: "bfs (make_grid wall_positions) start goal = []"
  show "start = goal \<or> (\<forall>path. walk (free_cell wall_positions) start path \<noteq> Some goal)"
  proof (rule disjCI)
    assume "\<not> (\<forall>path. walk (free_cell wall_positions) start path \<noteq> Some goal)"
    then obtain path where "walk (free_cell wall_positions) start path = Some goal"
      by blast
    from bfs_make_grid_walk [OF this] e show "start = goal" by simp
  qed
next
  assume "start = goal \<or> (\<forall>path. walk (free_cell wall_positions) start path \<noteq> Some goal)"
  then show "bfs (make_grid wall_positions) start goal = []"
  proof
    assume "start = goal"
    then have "walk (free_cell wall_positions) start [] = Some goal" by simp
    from bfs_make_grid_walk [OF this] show ?thesis by simp
  next
    assume "\<forall>path. walk (free_cell wall_positions) start path \<noteq> Some goal"
    then show ?thesis
      by (intro bfs_unreachable) (simp add: passable_make_grid)
  qed
qed

theorem bfs_empty_iff_witness:
  "bfs (make_grid [(0, 1), (1, 0)]) (3, 3) (3, 3) = [] \<and>
   (bfs (make_grid [(0, 1), (1, 0)]) (0, 0) (3, 3) = [] \<longleftrightarrow>
      (\<forall>path. walk (free_cell [(0, 1), (1, 0)]) (0, 0) path \<noteq> Some (3, 3)))"
  using bfs_empty_iff [of "[(0, 1), (1, 0)]" "(3, 3)" "(3, 3)"]
    bfs_empty_iff [of "[(0, 1), (1, 0)]" "(0, 0)" "(3, 3)"]
  by simp

text \<open>
  C8. \<open>bfs\<close> is a function of the obstacle map, the start and the goal: the keys of
  \<open>MOVES\<close> are enumerated in the order UP, DOWN, LEFT, RIGHT; two maps that give every
  cell the same passable/impassable answer give the same move sequence; and whenever
  some walk reaches the goal, the sequence returned is the one that comes first in
  \<open>path_order\<close>, the order that ranks the moves UP before DOWN before LEFT before
  RIGHT. Among several shortest paths it is therefore always the same one, the
  lexicographically first, that is returned.
\<close>

theorem bfs_deterministic:
  "map fst MOVES = [''UP'', ''DOWN'', ''LEFT'', ''RIGHT''] \<and>
   (passable grid = passable grid' \<longrightarrow> bfs grid start goal = bfs grid' start goal) \<and>
   (walk (passable grid) start path = Some goal \<longrightarrow>
      walk (passable grid) start (bfs grid start goal) = Some goal \<and>
      (bfs grid start goal = path \<or> (bfs grid start goal, path) \<in> path_order))"
proof (intro conjI impI)
  show "map fst MOVES = [''UP'', ''DOWN'', ''LEFT'', ''RIGHT'']"
    by (simp add: MOVES_def)
  show "bfs grid start goal = bfs grid' start goal" if "passable grid = passable grid'"
    using that by (rule bfs_cong)
  assume w: "walk (passable grid) start path = Some goal"
  from bfs_walk [OF w] show "walk (passable grid) start (bfs grid start goal) = Some goal"
    by blast
  from bfs_walk [OF w] show "bfs grid start goal = path \<or> (bfs grid start goal, path) \<in> path_order"
    by blast
qed

theorem bfs_deterministic_witness:
  "passable (make_grid [(12, 3)]) = passable (make_grid []) \<and>
   bfs (make_grid [(12, 3)]) (5, 5) (4, 6) = bfs (make_grid []) (5, 5) (4, 6) \<and>
   walk (passable (make_grid [(12, 3)])) (5, 5) [''RIGHT'', ''UP''] = Some (4, 6) \<and>
   bfs (make_grid [(12, 3)]) (5, 5) (4, 6) = [''UP'', ''RIGHT''] \<and>
   ([''UP'', ''RIGHT''], [''RIGHT'', ''UP'']) \<in> path_order"
proof -
  have h1: "passable (make_grid [(12, 3)]) = passable (make_grid [])"
    by (rule ext) (auto simp: passable_make_grid free_cell_def in_bounds_def)
  have h2: "walk (passable (make_grid [(12, 3)])) (5, 5) [''RIGHT'', ''UP''] = Some (4, 6)"
    by (simp add: passable_make_grid free_cell_def in_bounds_def MOVES_def)
  have v: "bfs (make_grid [(12, 3)]) (5, 5) (4, 6) = [''UP'', ''RIGHT'']"
    by code_simp
  from bfs_deterministic [of "make_grid [(12, 3)]" "make_grid []" "(5, 5)" "(4, 6)"
      "[''RIGHT'', ''UP'']"] h1 h2
  have "bfs (make_grid [(12, 3)]) (5, 5) (4, 6) = bfs (make_grid []) (5, 5) (4, 6)"
    and "bfs (make_grid [(12, 3)]) (5, 5) (4, 6) = [''RIGHT'', ''UP''] \<or>
         (bfs (make_grid [(12, 3)]) (5, 5) (4, 6), [''RIGHT'', ''UP'']) \<in> path_order"
    by blast+
  with v h1 h2 show ?thesis
    by simp
qed

text \<open>
  C9, as stated, fails: an out-of-range wall coordinate is placed in the map. With the
  wall (10,10) the dict has 101 keys and maps (10,10) to \<open>'W'\<close>, while the map built
  from the in-range walls alone has no entry for (10,10).
\<close>

theorem out_of_range_wall_stored:
  "\<not> in_bounds (10, 10) \<and>
   map_of (make_grid [(10, 10)]) (10, 10) = Some (CHR ''W'') \<and>
   map_of (make_grid (filter in_bounds [(10, 10)])) (10, 10) = None \<and>
   length (make_grid [(10, 10)]) = 101"
proof -
  have "length (make_grid [(10, 10)]) = 101"
    by code_simp
  then show ?thesis
    by (simp add: map_of_make_grid in_bounds_def)
qed

text \<open>
  C9, amended. Every wall of the snapshot, in range or not, is stored in the map with
  the value \<open>'W'\<close>. The passable/impassable answer of every cell equals the answer of
  the map built from the in-range walls only, an in-bounds cell is passable exactly when
  it is not a wall, and \<open>bfs\<close> returns the same path on both maps.
\<close>

theorem out_of_range_walls_harmless:
  "(wall \<in> set wall_positions \<longrightarrow> map_of (make_grid wall_positions) wall = Some (CHR ''W'')) \<and>
   passable (make_grid wall_positions) p
     = passable (make_grid (filter in_bounds wall_positions)) p \<and>
   (in_bounds p \<longrightarrow> passable (make_grid wall_positions) p = (p \<notin> set wall_positions)) \<and>
   bfs (make_grid wall_positions) start goal
     = bfs (make_grid (filter in_bounds wall_positions)) start goal"
proof -
  have eq: "passable (make_grid wall_positions) = passable (make_grid (filter in_bounds wall_positions))"
    by (rule ext) (auto simp: passable_make_grid free_cell_def)
  have "bfs (make_grid wall_positions) start goal
     = bfs (make_grid (filter in_bounds wall_positions)) start goal"
    using eq by (rule bfs_cong)
  moreover have "passable (make_grid wall_positions) p
     = passable (make_grid (filter in_bounds wall_positions)) p"
    by (simp only: eq)
  ultimately show ?thesis
    by (simp add: map_of_make_grid passable_make_grid free_cell_def)
qed

theorem out_of_range_walls_harmless_witness:
  "((10, 10) :: pos) \<in> set [(10, 10), (5, 6)] \<and>
   map_of (make_grid [(10, 10), (5, 6)]) (10, 10) = Some (CHR ''W'') \<and>
   in_bounds (5, 5) \<and>
   passable (make_grid [(10, 10), (5, 6)]) (5, 5) = (((5, 5) :: pos) \<notin> set [(10, 10), (5, 6)]) \<and>
   passable (make_grid [(10, 10), (5, 6)]) (5, 5)
     = passable (make_grid (filter in_bounds [(10, 10), (5, 6)])) (5, 5) \<and>
   bfs (make_grid [(10, 10), (5, 6)]) (5, 5) (5, 7)
     = bfs (make_grid (filter in_bounds [(10, 10), (5, 6)])) (5, 5) (5, 7)"
proof -
  have h1: "((10, 10) :: pos) \<in> set [(10, 10), (5, 6)]"
    by simp
  have h2: "in_bounds (5, 5)"
    by (simp add: in_bounds_def)
  from out_of_range_walls_harmless [of "(10, 10)" "[(10, 10), (5, 6)]" "(5, 5)" "(5, 5)" "(5, 7)"]
    h1 h2
  show ?thesis by blast
qed

section \<open>The claims about the decision cycle\<close>

text \<open>
  C2. Whenever the concatenation of \<open>coin1\<close>, \<open>coin2\<close> and \<open>coin3\<close> is not empty, the
  cycle's target \<open>t\<close> is an element of that list: every coin listed before it is
  strictly farther from the current position in Manhattan distance, every coin listed
  after it is at least as far. The path is searched towards \<open>t\<close>, the move published is
  the one picked for that path, and the fallback list is returned as it was.
\<close>

theorem real_coin_target:
  assumes "coin1 gs @ coin2 gs @ coin3 gs \<noteq> []"
  shows "\<exists>before t after.
     coin1 gs @ coin2 gs @ coin3 gs = before @ t # after \<and>
     (\<forall>c \<in> set before. manhattan_distance (currentPosition gs) t
                          < manhattan_distance (currentPosition gs) c) \<and>
     (\<forall>c \<in> set after. manhattan_distance (currentPosition gs) t
                         \<le> manhattan_distance (currentPosition gs) c) \<and>
     decision_cycle fakes gs rnd =
       Inr (fakes, pick_move (bfs (make_grid (walls gs)) (currentPosition gs) t) rnd)"
proof -
  from min_key_split [OF assms, of "manhattan_distance (currentPosition gs)"]
  obtain t before after where
    m: "min_key (manhattan_distance (currentPosition gs)) (coin1 gs @ coin2 gs @ coin3 gs) = Inr t"
    and s: "coin1 gs @ coin2 gs @ coin3 gs = before @ t # after"
    and lt: "\<forall>c \<in> set before. manhattan_distance (currentPosition gs) t
                          < manhattan_distance (currentPosition gs) c"
    and le: "\<forall>c \<in> set after. manhattan_distance (currentPosition gs) t
                         \<le> manhattan_distance (currentPosition gs) c"
    by blast
  from decision_cycle_real [OF assms m, of fakes rnd] s lt le show ?thesis
    by blast
qed

theorem real_coin_target_witness:
  "coin1 snapshot_tie @ coin2 snapshot_tie @ coin3 snapshot_tie \<noteq> [] \<and>
   decision_cycle fake_coin_positions snapshot_tie 0 = Inr (fake_coin_positions, ''DOWN'') \<and>
   (\<exists>before t after.
     coin1 snapshot_tie @ coin2 snapshot_tie @ coin3 snapshot_tie = before @ t # after \<and>
     (\<forall>c \<in> set before. manhattan_distance (currentPosition snapshot_tie) t
                          < manhattan_distance (currentPosition snapshot_tie) c) \<and>
     (\<forall>c \<in> set after. manhattan_distance (currentPosition snapshot_tie) t
                         \<le> manhattan_distance (currentPosition snapshot_tie) c) \<and>
     decision_cycle fake_coin_positions snapshot_tie 0 =
       Inr (fake_coin_positions,
            pick_move (bfs (make_grid (walls snapshot_tie)) (currentPosition snapshot_tie) t) 0))"
proof -
  have h: "coin1 snapshot_tie @ coin2 snapshot_tie @ coin3 snapshot_tie \<noteq> []"
    by (simp add: snapshot_tie_def)
  have v: "decision_cycle fake_coin_positions snapshot_tie 0 = Inr (fake_coin_positions, ''DOWN'')"
    by code_simp
  from h v real_coin_target [OF h, of fake_coin_positions 0] show ?thesis
    by (intro conjI)
qed

text \<open>
  C3. In a cycle with no real coin and a non-empty fallback list, the selected fallback
  coin \<open>t\<close> is the first of the nearest ones. If the current position is within
  Manhattan distance 2 of \<open>t\<close>, the list returned is the old list without \<open>t\<close> (and
  \<open>t\<close> is gone from it when the list had no duplicates). In particular, when the
  current position is itself in the fallback list, it is the selected coin and it is
  removed.
\<close>

theorem fallback_coin_pruned:
  assumes "coin1 gs @ coin2 gs @ coin3 gs = []" and "fakes \<noteq> []"
  shows "\<exists>before t after m.
     fakes = before @ t # after \<and>
     (\<forall>c \<in> set before. manhattan_distance (currentPosition gs) t
                          < manhattan_distance (currentPosition gs) c) \<and>
     (\<forall>c \<in> set after. manhattan_distance (currentPosition gs) t
                         \<le> manhattan_distance (currentPosition gs) c) \<and>
     (manhattan_distance (currentPosition gs) t \<le> 2 \<longrightarrow>
        decision_cycle fakes gs rnd = Inr (before @ after, m) \<and>
        (distinct fakes \<longrightarrow> t \<notin> set (before @ after))) \<and>
     (currentPosition gs \<in> set fakes \<longrightarrow>
        t = currentPosition gs \<and> decision_cycle fakes gs rnd = Inr (before @ after, m))"
proof -
  let ?cur = "currentPosition gs"
  from min_key_split [OF assms(2), of "manhattan_distance ?cur"]
  obtain t before after where
    m: "min_key (manhattan_distance ?cur) fakes = Inr t"
    and s: "fakes = before @ t # after"
    and lt: "\<forall>c \<in> set before. manhattan_distance ?cur t < manhattan_distance ?cur c"
    and le: "\<forall>c \<in> set after. manhattan_distance ?cur t \<le> manhattan_distance ?cur c"
    by blast
  let ?m = "pick_move (bfs (make_grid (walls gs)) ?cur t) rnd"
  have "t \<notin> set before"
    using lt by auto
  then have r: "remove1 t fakes = before @ after"
    by (simp add: s remove1_append)
  from decision_cycle_fake [OF assms m, of rnd]
  have d: "manhattan_distance ?cur t \<le> 2 \<Longrightarrow> decision_cycle fakes gs rnd = Inr (before @ after, ?m)"
    by (simp add: r)
  have dist: "distinct fakes \<Longrightarrow> t \<notin> set (before @ after)"
    by (auto simp: s)
  have here: "t = ?cur \<and> manhattan_distance ?cur t \<le> 2" if "?cur \<in> set fakes"
  proof -
    have z: "manhattan_distance ?cur ?cur = 0"
      by (simp add: manhattan_distance_def)
    from that consider "?cur \<in> set before" | "?cur = t" | "?cur \<in> set after"
      by (auto simp: s)
    then have "manhattan_distance ?cur t \<le> 0"
    proof cases
      case 1
      with lt z show ?thesis by force
    next
      case 2
      with z show ?thesis by simp
    next
      case 3
      with le z show ?thesis by force
    qed
    with manhattan_zero [of ?cur t] show ?thesis by simp
  qed
  have "fakes = before @ t # after \<and>
     (\<forall>c \<in> set before. manhattan_distance ?cur t < manhattan_distance ?cur c) \<and>
     (\<forall>c \<in> set after. manhattan_distance ?cur t \<le> manhattan_distance ?cur c) \<and>
     (manhattan_distance ?cur t \<le> 2 \<longrightarrow>
        decision_cycle fakes gs rnd = Inr (before @ after, ?m) \<and>
        (distinct fakes \<longrightarrow> t \<notin> set (before @ after))) \<and>
     (?cur \<in> set fakes \<longrightarrow> t = ?cur \<and> decision_cycle fakes gs rnd = Inr (before @ after, ?m))"
    using s lt le d dist here by blast
  then show ?thesis by blast
qed

theorem fallback_coin_pruned_witness:
  "coin1 snapshot_B @ coin2 snapshot_B @ coin3 snapshot_B = [] \<and> fake_coin_positions \<noteq> [] \<and>
   decision_cycle fake_coin_positions snapshot_B 0 = Inr ([(0, 9), (9, 0), (9, 9)], ''UP'') \<and>
   (\<exists>before t after m.
     fake_coin_positions = before @ t # after \<and>
     (\<forall>c \<in> set before. manhattan_distance (currentPosition snapshot_B) t
                          < manhattan_distance (currentPosition snapshot_B) c) \<and>
     (\<forall>c \<in> set after. manhattan_distance (currentPosition snapshot_B) t
                         \<le> manhattan_distance (currentPosition snapshot_B) c) \<and>
     (manhattan_distance (currentPosition snapshot_B) t \<le> 2 \<longrightarrow>
        decision_cycle fake_coin_positions snapshot_B 0 = Inr (before @ after, m) \<and>
        (distinct fake_coin_positions \<longrightarrow> t \<notin> set (before @ after))) \<and>
     (currentPosition snapshot_B \<in> set fake_coin_positions \<longrightarrow>
        t = currentPosition snapshot_B \<and>
        decision_cycle fake_coin_positions snapshot_B 0 = Inr (before @ after, m)))"
proof -
  have h1: "coin1 snapshot_B @ coin2 snapshot_B @ coin3 snapshot_B = []"
    by (simp add: snapshot_B_def)
  have h2: "fake_coin_positions \<noteq> []"
    by (simp add: fake_coin_positions_def)
  have v: "decision_cycle fake_coin_positions snapshot_B 0 = Inr ([(0, 9), (9, 0), (9, 9)], ''UP'')"
    by code_simp
  from h1 h2 v fallback_coin_pruned [OF h1 h2, of 0] show ?thesis
    by (intro conjI)
qed

text \<open>
  C4. Along any sequence of decision cycles started from the seeded list
  (0,0), (0,9), (9,0), (9,9), every cycle completes, and for any two moments \<open>i \<le> j\<close>
  the fallback list at \<open>j\<close> is no longer than at \<open>i\<close>, holds only coordinates it held at
  \<open>i\<close> (so nothing is added and nothing removed comes back), holds only seeded
  coordinates, and is empty if it was empty at \<open>i\<close>.
\<close>

theorem fallback_set_monotone:
  assumes "i \<le> j" and "j \<le> length inputs"
  shows "length (fake_trace fake_coin_positions inputs) = Suc (length inputs) \<and>
     fake_trace fake_coin_positions inputs ! 0 = [(0, 0), (0, 9), (9, 0), (9, 9)] \<and>
     length (fake_trace fake_coin_positions inputs ! j)
       \<le> length (fake_trace fake_coin_positions inputs ! i) \<and>
     set (fake_trace fake_coin_positions inputs ! j)
       \<subseteq> set (fake_trace fake_coin_positions inputs ! i) \<and>
     set (fake_trace fake_coin_positions inputs ! j) \<subseteq> {(0, 0), (0, 9), (9, 0), (9, 9)} \<and>
     (fake_trace fake_coin_positions inputs ! i = [] \<longrightarrow>
        fake_trace fake_coin_positions inputs ! j = [])"
proof -
  let ?tr = "fake_trace fake_coin_positions inputs"
  have a: "length ?tr = Suc (length inputs)"
    by (rule fake_trace_length)
  have b: "?tr ! 0 = [(0, 0), (0, 9), (9, 0), (9, 9)]"
    by (simp add: fake_trace_hd fake_coin_positions_def)
  from fake_trace_mono [OF assms, of fake_coin_positions]
  have c: "set (?tr ! j) \<subseteq> set (?tr ! i)" and d: "length (?tr ! j) \<le> length (?tr ! i)"
    by simp_all
  from fake_trace_mono [of 0 j inputs fake_coin_positions] assms(2)
  have "set (?tr ! j) \<subseteq> set (?tr ! 0)"
    by simp
  then have e: "set (?tr ! j) \<subseteq> {(0, 0), (0, 9), (9, 0), (9, 9)}"
    unfolding b by simp
  from d have f: "?tr ! i = [] \<longrightarrow> ?tr ! j = []"
    by auto
  from a b c d e f show ?thesis
    by (intro conjI)
qed

theorem fallback_set_monotone_witness:
  "(1::nat) \<le> 2 \<and> (2::nat) \<le> length [(snapshot_far, 0), (snapshot_B, 0::nat)] \<and>
   fake_trace fake_coin_positions [(snapshot_far, 0), (snapshot_B, 0)] =
     [[(0, 0), (0, 9), (9, 0), (9, 9)], [(0, 0), (0, 9), (9, 0), (9, 9)], [(0, 9), (9, 0), (9, 9)]] \<and>
   length (fake_trace fake_coin_positions [(snapshot_far, 0), (snapshot_B, 0)] ! 2)
     \<le> length (fake_trace fake_coin_positions [(snapshot_far, 0), (snapshot_B, 0)] ! 1) \<and>
   set (fake_trace fake_coin_positions [(snapshot_far, 0), (snapshot_B, 0)] ! 2)
     \<subseteq> set (fake_trace fake_coin_positions [(snapshot_far, 0), (snapshot_B, 0)] ! 1)"
proof -
  have h1: "(1::nat) \<le> 2"
    by simp
  have h2: "(2::nat) \<le> length [(snapshot_far, 0), (snapshot_B, 0::nat)]"
    by simp
  have v: "fake_trace fake_coin_positions [(snapshot_far, 0), (snapshot_B, 0)] =
     [[(0, 0), (0, 9), (9, 0), (9, 9)], [(0, 0), (0, 9), (9, 0), (9, 9)], [(0, 9), (9, 0), (9, 9)]]"
    by code_simp
  from fallback_set_monotone [OF h1 h2] h1 h2 v show ?thesis
    by blast
qed

text \<open>
  C5. A decision cycle never raises: for every value of the fallback list, every
  snapshot (duplicated coordinates included) and every random draw it returns a new
  fallback list and exactly one move, which is one of UP, DOWN, LEFT, RIGHT. The
  handler publishes that move when the topic ends in \<open>/game_state\<close> and nothing
  otherwise. The second \<open>remove\<close> (line 121) cannot raise because it is never reached:
  the path from a cell to itself is empty.
\<close>

theorem decision_cycle_never_raises:
  "\<exists>fakes' m. decision_cycle fakes gs rnd = Inr (fakes', m) \<and>
     m \<in> {''UP'', ''DOWN'', ''LEFT'', ''RIGHT''} \<and>
     on_message fakes topic gs rnd =
       Inr (if suffix ''/game_state'' topic then (fakes', Some m) else (fakes, None))"
proof -
  from decision_cycle_total_aux [of fakes gs rnd] obtain fakes' m where
    d: "decision_cycle fakes gs rnd = Inr (fakes', m)" and m: "m \<in> fst ` set MOVES"
    by blast
  have "fst ` set MOVES = {''UP'', ''DOWN'', ''LEFT'', ''RIGHT''}"
    by (simp add: MOVES_def)
  with m have m': "m \<in> {''UP'', ''DOWN'', ''LEFT'', ''RIGHT''}"
    by simp
  have "on_message fakes topic gs rnd =
       Inr (if suffix ''/game_state'' topic then (fakes', Some m) else (fakes, None))"
    by (simp add: on_message_def d py_bind_def)
  with d m' show ?thesis by blast
qed

theorem decision_cycle_never_raises_witness:
  "decision_cycle fake_coin_positions snapshot_coin_on_wall 2 = Inr (fake_coin_positions, ''LEFT'') \<and>
   (\<exists>fakes' m. decision_cycle fake_coin_positions snapshot_coin_on_wall 2 = Inr (fakes', m) \<and>
     m \<in> {''UP'', ''DOWN'', ''LEFT'', ''RIGHT''} \<and>
     on_message fake_coin_positions ''games/TestLobby/Player3/game_state'' snapshot_coin_on_wall 2 =
       Inr (if suffix ''/game_state'' ''games/TestLobby/Player3/game_state''
            then (fakes', Some m) else (fake_coin_positions, None)))"
proof -
  have v: "decision_cycle fake_coin_positions snapshot_coin_on_wall 2
             = Inr (fake_coin_positions, ''LEFT'')"
    by code_simp
  from v decision_cycle_never_raises
    [of fake_coin_positions snapshot_coin_on_wall 2 "''games/TestLobby/Player3/game_state''"]
  show ?thesis by (rule conjI)
qed

text \<open>
  C7. Scenario A: no walls, the player at (5,5) and exactly one real coin, at (5,7).
  The path found is RIGHT, RIGHT and the cycle publishes RIGHT, leaving the fallback
  list as it was.
\<close>

theorem scenario_A:
  assumes "currentPosition gs = (5, 5)" and "coin1 gs @ coin2 gs @ coin3 gs = [(5, 7)]"
    and "walls gs = []"
  shows "bfs (make_grid (walls gs)) (currentPosition gs) (5, 7) = [''RIGHT'', ''RIGHT''] \<and>
         decision_cycle fakes gs rnd = Inr (fakes, ''RIGHT'')"
proof -
  have b: "bfs (make_grid []) (5, 5) (5, 7) = [''RIGHT'', ''RIGHT'']"
    by code_simp
  have ne: "coin1 gs @ coin2 gs @ coin3 gs \<noteq> []"
    by (simp only: assms(2)) simp
  have "min_key (manhattan_distance (currentPosition gs)) (coin1 gs @ coin2 gs @ coin3 gs)
          = Inr (5, 7)"
    by (simp only: assms(2)) (simp add: min_key_def)
  from decision_cycle_real [OF ne this, of fakes rnd] b show ?thesis
    by (simp add: assms(1,3) pick_move_def)
qed

theorem scenario_A_witness:
  "currentPosition snapshot_A = (5, 5) \<and>
   coin1 snapshot_A @ coin2 snapshot_A @ coin3 snapshot_A = [(5, 7)] \<and>
   walls snapshot_A = [] \<and>
   bfs (make_grid (walls snapshot_A)) (currentPosition snapshot_A) (5, 7) = [''RIGHT'', ''RIGHT''] \<and>
   decision_cycle fake_coin_positions snapshot_A 0 = Inr (fake_coin_positions, ''RIGHT'')"
proof -
  have h1: "currentPosition snapshot_A = (5, 5)"
    by (simp add: snapshot_A_def)
  have h2: "coin1 snapshot_A @ coin2 snapshot_A @ coin3 snapshot_A = [(5, 7)]"
    by (simp add: snapshot_A_def)
  have h3: "walls snapshot_A = []"
    by (simp add: snapshot_A_def)
  from h1 h2 h3 scenario_A [OF h1 h2 h3, of fake_coin_positions 0] show ?thesis
    by blast
qed

text \<open>
  C10. Whenever the real-coin list is not empty, the cycle returns the fallback list
  unchanged. The list changes only in a cycle without real coins and with a non-empty
  fallback list, and then only by the removal of the selected nearest fallback coin,
  which lies within Manhattan distance 2 of the current position.
\<close>

theorem real_coins_freeze_fallback_set:
  "(coin1 gs @ coin2 gs @ coin3 gs \<noteq> [] \<longrightarrow>
      (\<exists>m. decision_cycle fakes gs rnd = Inr (fakes, m))) \<and>
   (decision_cycle fakes gs rnd = Inr (fakes', m') \<and> fakes' \<noteq> fakes \<longrightarrow>
      coin1 gs @ coin2 gs @ coin3 gs = [] \<and> fakes \<noteq> [] \<and>
      (\<exists>t. min_key (manhattan_distance (currentPosition gs)) fakes = Inr t \<and>
           manhattan_distance (currentPosition gs) t \<le> 2 \<and> fakes' = remove1 t fakes))"
proof (intro conjI impI)
  assume ne: "coin1 gs @ coin2 gs @ coin3 gs \<noteq> []"
  from min_key_split [OF ne, of "manhattan_distance (currentPosition gs)"]
  obtain t where "min_key (manhattan_distance (currentPosition gs))
      (coin1 gs @ coin2 gs @ coin3 gs) = Inr t"
    by blast
  from decision_cycle_real [OF ne this, of fakes rnd]
  show "\<exists>m. decision_cycle fakes gs rnd = Inr (fakes, m)"
    by blast
next
  assume a: "decision_cycle fakes gs rnd = Inr (fakes', m') \<and> fakes' \<noteq> fakes"
  have e: "coin1 gs @ coin2 gs @ coin3 gs = []"
  proof (rule ccontr)
    assume ne: "coin1 gs @ coin2 gs @ coin3 gs \<noteq> []"
    from min_key_split [OF ne, of "manhattan_distance (currentPosition gs)"]
    obtain t where "min_key (manhattan_distance (currentPosition gs))
        (coin1 gs @ coin2 gs @ coin3 gs) = Inr t"
      by blast
    from decision_cycle_real [OF ne this, of fakes rnd] a show False
      by simp
  qed
  have f: "fakes \<noteq> []"
  proof
    assume "fakes = []"
    from decision_cycle_none [OF e this, of rnd] a show False
      by simp
  qed
  from min_key_split [OF f, of "manhattan_distance (currentPosition gs)"]
  obtain t where t: "min_key (manhattan_distance (currentPosition gs)) fakes = Inr t"
    by blast
  from decision_cycle_fake [OF e f t, of rnd] a
  have "manhattan_distance (currentPosition gs) t \<le> 2 \<and> fakes' = remove1 t fakes"
    by (cases "manhattan_distance (currentPosition gs) t \<le> 2") simp_all
  with t have g: "\<exists>t. min_key (manhattan_distance (currentPosition gs)) fakes = Inr t \<and>
           manhattan_distance (currentPosition gs) t \<le> 2 \<and> fakes' = remove1 t fakes"
    by blast
  show "coin1 gs @ coin2 gs @ coin3 gs = []"
    by (rule e)
  show "fakes \<noteq> []"
    by (rule f)
  show "\<exists>t. min_key (manhattan_distance (currentPosition gs)) fakes = Inr t \<and>
           manhattan_distance (currentPosition gs) t \<le> 2 \<and> fakes' = remove1 t fakes"
    by (rule g)
qed

theorem real_coins_freeze_fallback_set_witness:
  "coin1 snapshot_A @ coin2 snapshot_A @ coin3 snapshot_A \<noteq> [] \<and>
   (\<exists>m. decision_cycle [(0, 0), (9, 9)] snapshot_A 1 = Inr ([(0, 0), (9, 9)], m)) \<and>
   decision_cycle [(0, 0), (9, 9)] snapshot_B 1 = Inr ([(9, 9)], ''DOWN'') \<and>
   [(9, 9)] \<noteq> [(0, 0), (9, 9 :: int)] \<and>
   coin1 snapshot_B @ coin2 snapshot_B @ coin3 snapshot_B = [] \<and>
   (\<exists>t. min_key (manhattan_distance (currentPosition snapshot_B)) [(0, 0), (9, 9)] = Inr t \<and>
        manhattan_distance (currentPosition snapshot_B) t \<le> 2 \<and>
        [(9, 9)] = remove1 t [(0, 0), (9, 9)])"
proof -
  have h1: "coin1 snapshot_A @ coin2 snapshot_A @ coin3 snapshot_A \<noteq> []"
    by (simp add: snapshot_A_def)
  have h2: "decision_cycle [(0, 0), (9, 9)] snapshot_B 1 = Inr ([(9, 9)], ''DOWN'')"
    by code_simp
  have h3: "[(9, 9)] \<noteq> [(0, 0), (9, 9 :: int)]"
    by simp
  from real_coins_freeze_fallback_set [of snapshot_A "[(0, 0), (9, 9)]" 1] h1
  have a: "\<exists>m. decision_cycle [(0, 0), (9, 9)] snapshot_A 1 = Inr ([(0, 0), (9, 9)], m)"
    by blast
  from real_coins_freeze_fallback_set
    [of snapshot_B "[(0, 0), (9, 9)]" 1 "[(9, 9)]" "''DOWN''"] h2 h3
  have b: "coin1 snapshot_B @ coin2 snapshot_B @ coin3 snapshot_B = [] \<and>
     (\<exists>t. min_key (manhattan_distance (currentPosition snapshot_B)) [(0, 0), (9, 9)] = Inr t \<and>
        manhattan_distance (currentPosition snapshot_B) t \<le> 2 \<and>
        [(9, 9)] = remove1 t [(0, 0), (9, 9)])"
    by blast
  from h1 a h2 h3 b show ?thesis
    by blast
qed

end
